theory Spec2Isabelle
  imports Complex_Main "HOL-Library.Multiset"
begin

section \<open>JavaScript values\<close>

text \<open>
  The values an array element or an argument can hold. Numbers are the finite
  numbers (as exact rationals), the two infinities, negative zero and NaN; objects
  other than arrays are opaque references.
\<close>

datatype jsnum = NaN | PosInf | NegInf | NegZero | Fin rat

datatype jsval =
    JUndefined
  | JNull
  | JBool bool
  | JNumber jsnum
  | JBigInt int
  | JString string
  | JSymbol nat
  | JArray "jsval list"
  | JObject nat

text \<open>ToBoolean of ECMAScript: what \<^verbatim>\<open>c ? a : b\<close> and \<^verbatim>\<open>Array.prototype.filter\<close>
  apply to a value.\<close>

fun ToBoolean :: "jsval \<Rightarrow> bool" where
  "ToBoolean JUndefined = False"
| "ToBoolean JNull = False"
| "ToBoolean (JBool b) = b"
| "ToBoolean (JNumber NaN) = False"
| "ToBoolean (JNumber NegZero) = False"
| "ToBoolean (JNumber (Fin q)) = (q \<noteq> 0)"
| "ToBoolean (JNumber PosInf) = True"
| "ToBoolean (JNumber NegInf) = True"
| "ToBoolean (JBigInt i) = (i \<noteq> 0)"
| "ToBoolean (JString s) = (s \<noteq> [])"
| "ToBoolean (JSymbol _) = True"
| "ToBoolean (JArray _) = True"
| "ToBoolean (JObject _) = True"

abbreviation num :: "rat \<Rightarrow> jsval" where
  "num q \<equiv> JNumber (Fin q)"

section \<open>apply/array/filter.js\<close>

text \<open>
  An array is a list of slots; \<open>None\<close> is a hole of a sparse array.
  \<^verbatim>\<open>Array.prototype.filter\<close> visits the indices in ascending order, skips the holes,
  calls the callback on each present element, coerces what it returns with ToBoolean
  and appends the selected elements to a new, dense array.
\<close>

type_synonym jsarray = "jsval option list"

fun Array_filter :: "(jsval \<Rightarrow> jsval) \<Rightarrow> jsarray \<Rightarrow> jsarray" where
  "Array_filter cb [] = []"
| "Array_filter cb (None # slots) = Array_filter cb slots"
| "Array_filter cb (Some v # slots) =
     (if ToBoolean (cb v) then Some v # Array_filter cb slots else Array_filter cb slots)"

text \<open>The elements an array holds, in index order.\<close>

fun elements :: "jsarray \<Rightarrow> jsval list" where
  "elements [] = []"
| "elements (None # slots) = elements slots"
| "elements (Some v # slots) = v # elements slots"

text \<open>
  The module hands each helper to \<^verbatim>\<open>Define\<close> (util/Define, not among the sources),
  which installs it as a method of \<^verbatim>\<open>Array.prototype\<close>: \<open>this\<close> is the array the
  method is called on, here the last argument.

  \<^verbatim>\<open>this.filter(v => v !== undefined && v !== null)\<close>. Strict inequality with
  \<^verbatim>\<open>undefined\<close>, \<^verbatim>\<open>null\<close> or \<^verbatim>\<open>false\<close> is inequality of the datatype's values:
  each of the three is the only value of its kind.
\<close>

definition filterNullish :: "jsarray \<Rightarrow> jsarray" where
  "filterNullish this = Array_filter (\<lambda>v. JBool (v \<noteq> JUndefined \<and> v \<noteq> JNull)) this"

text \<open>
  \<^verbatim>\<open>function (removeZeroAndEmptyString = false) {
    return this.filter(v => removeZeroAndEmptyString ? v
      : v !== undefined && v !== null && v !== false); }\<close>
  The default applies when the argument is missing or \<^verbatim>\<open>undefined\<close>.
\<close>

definition filterFalsey :: "jsval \<Rightarrow> jsarray \<Rightarrow> jsarray" where
  "filterFalsey arg this =
     (let removeZeroAndEmptyString = (if arg = JUndefined then JBool False else arg)
      in Array_filter
           (\<lambda>v. if ToBoolean removeZeroAndEmptyString then v
                else JBool (v \<noteq> JUndefined \<and> v \<noteq> JNull \<and> v \<noteq> JBool False))
           this)"

section \<open>tasks/test.ts\<close>

text \<open>
  The promise of the task: settled at most once, so \<^verbatim>\<open>resolve\<close> and \<^verbatim>\<open>reject\<close>
  act on a pending promise only.
\<close>

datatype promise = Pending | Fulfilled | Rejected string

fun resolve :: "promise \<Rightarrow> promise" where
  "resolve Pending = Fulfilled"
| "resolve p = p"

fun reject :: "string \<Rightarrow> promise \<Rightarrow> promise" where
  "reject reason Pending = Rejected reason"
| "reject reason p = p"

text \<open>
  \<^verbatim>\<open>childProcess.on("exit", code => { if (code === 1) reject("Error code 1");
  else resolve(); })\<close>. The exit code is a number, or \<^verbatim>\<open>null\<close> (\<open>None\<close>) when a signal
  ended the child.
\<close>

definition on_exit :: "int option \<Rightarrow> promise \<Rightarrow> promise" where
  "on_exit code p = (if code = Some 1 then reject ''Error code 1'' p else resolve p)"

section \<open>The Stream engine\<close>

text \<open>
  The tests of the repository (src/tests/Main.ts) import the engine from \<^verbatim>\<open>../Stream\<close>;
  that module is not among the sources. Its operations are modelled here from the
  specification, and the models are compared with the expectations that Main.ts
  states for them. A stream is a single-pass cursor: its state is the list of the
  elements it has yet to yield. A derived stream shares the cursor of its parent, so
  each of its operations takes the parent's state and returns it updated.
\<close>

text \<open>Modelled from the spec: the errors of the engine (Stream.ts is absent); there is a
  single kind.\<close>

datatype error = InvalidArgument

text \<open>Modelled from the spec: the integrality test of a numeric argument (Stream.ts is
  absent). Numbers are exact rationals.\<close>

definition is_integer :: "rat \<Rightarrow> bool" where
  "is_integer q = (of_int \<lfloor>q\<rfloor> = q)"


text \<open>Modelled from the spec: \<^verbatim>\<open>[...stream]\<close>, draining a stream to its end (Stream.ts is
  absent). The result is the list of the elements yielded and the exhausted cursor.\<close>

fun collect :: "'a list \<Rightarrow> 'a list \<times> 'a list" where
  "collect [] = ([], [])"
| "collect (x # xs) = (let (ys, s') = collect xs in (x # ys, s'))"

subsection \<open>Numbers\<close>

text \<open>Modelled from the spec: the arithmetic of the engine's numbers (Stream.ts is
  absent). A number is a double; the finite doubles are rationals, and a sum is the
  exact sum rounded to the nearest double, ties to the even significand. \<open>round_even\<close>
  rounds a rational to the nearest integer, ties to even.\<close>

definition round_even :: "rat \<Rightarrow> int" where
  "round_even q =
     (let f = \<lfloor>q\<rfloor>; r = q - of_int f
      in if r < 1 / 2 then f else if 1 / 2 < r then f + 1 else if even f then f else f + 1)"

text \<open>Modelled from the spec: the number of binary digits of a natural number
  (Stream.ts is absent; part of the rounding).\<close>

fun bit_length :: "nat \<Rightarrow> nat" where
  "bit_length n = (if n = 0 then 0 else Suc (bit_length (n div 2)))"

declare bit_length.simps [simp del]

text \<open>Modelled from the spec: the binary exponent of a positive rational \<open>x\<close>, the \<open>e\<close>
  with \<open>2 ^ e \<le> x < 2 ^ (e + 1)\<close> (Stream.ts is absent; part of the rounding).\<close>

definition exponent :: "rat \<Rightarrow> int" where
  "exponent x =
     (if 1 \<le> x then int (bit_length (nat \<lfloor>x\<rfloor>)) - 1
      else (let j = int (bit_length (nat \<lfloor>1 / x\<rfloor>)) - 1
            in if x * 2 powi j = 1 then - j else - j - 1))"

text \<open>Modelled from the spec: rounding a rational to the nearest double, which has a
  significand of 53 binary digits (Stream.ts is absent). Overflow to infinity and the
  coarser spacing of the subnormal numbers are left out: the exponent is not bounded.\<close>

definition double :: "rat \<Rightarrow> rat" where
  "double x =
     (if x = 0 then 0
      else (let ulp = 2 powi (exponent \<bar>x\<bar> - 52) in of_int (round_even (x / ulp)) * ulp))"


subsection \<open>range\<close>

text \<open>Modelled from the spec: the generator loop behind \<^verbatim>\<open>Stream.range\<close> (Stream.ts is
  absent). It starts at \<open>i\<close>, adds \<open>s\<close> after each yield by floating accumulation (the
  sum is rounded to a double) and stops before reaching \<open>e\<close>, upward for a positive and
  downward for a negative \<open>s\<close>. Where the rounded sum does not move (a step far smaller
  than the value) the loop does not end: the result is \<open>None\<close>.\<close>

partial_function (option) range_iter :: "rat \<Rightarrow> rat \<Rightarrow> rat \<Rightarrow> rat list option" where
  "range_iter i e s =
     (if (0 < s \<and> i < e) \<or> (s < 0 \<and> e < i)
      then Option.bind (range_iter (double (i + s)) e s) (\<lambda>ys. Some (i # ys))
      else Some [])"

declare range_iter.simps [code]

text \<open>Modelled from the spec: \<^verbatim>\<open>Stream.range(a)\<close>, \<^verbatim>\<open>range(a, b)\<close> and
  \<^verbatim>\<open>range(a, b, step)\<close> (Stream.ts is absent). One argument is the range from 0 to
  \<open>a\<close>; the step defaults to 1 and must not be zero; the end is exclusive. A negative
  step over ascending bounds walks the range backward from its end (Main.ts:
  \<^verbatim>\<open>range(0, 6, -2)\<close> is 6, 4, 2), and descending bounds are walked downward
  (\<^verbatim>\<open>range(3, 1)\<close> is 3, 2), in both cases by the magnitude of the step. The result
  is \<open>None\<close> when the loop does not end.\<close>

definition range_stream :: "rat \<Rightarrow> rat option \<Rightarrow> rat option \<Rightarrow> (error + rat list) option" where
  "range_stream a b step =
     (let s = (case step of None \<Rightarrow> 1 | Some s \<Rightarrow> s) in
      if s = 0 then Some (Inl InvalidArgument)
      else
        let (start, end) = (case b of None \<Rightarrow> (0, a) | Some b \<Rightarrow> (a, b));
            (start, end) = (if s < 0 \<and> start < end then (end, start) else (start, end))
        in map_option Inr (range_iter start end (if end < start then - \<bar>s\<bar> else \<bar>s\<bar>)))"

subsection \<open>take, drop, step\<close>

text \<open>Modelled from the spec: \<^verbatim>\<open>take(n)\<close> (Stream.ts is absent). The count is checked when
  the stream is derived, before any pull; the derived stream's own state is the number
  of elements it may still yield.\<close>

definition take_stream :: "rat \<Rightarrow> error + nat" where
  "take_stream n = (if \<not> is_integer n \<or> n < 0 then Inl InvalidArgument else Inr (nat \<lfloor>n\<rfloor>))"

text \<open>Modelled from the spec: \<^verbatim>\<open>next()\<close> of a stream derived by take (Stream.ts is
  absent): once the count is used up the parent is not pulled again.\<close>

fun take_next :: "nat \<times> 'a list \<Rightarrow> 'a option \<times> (nat \<times> 'a list)" where
  "take_next (0, s) = (None, (0, s))"
| "take_next (Suc n, []) = (None, (0, []))"
| "take_next (Suc n, x # xs) = (Some x, (n, xs))"

text \<open>Modelled from the spec: \<^verbatim>\<open>drop(n)\<close> (Stream.ts is absent), checked like take; the
  derived stream's state is the number of elements still to skip.\<close>

definition drop_stream :: "rat \<Rightarrow> error + nat" where
  "drop_stream n = (if \<not> is_integer n \<or> n < 0 then Inl InvalidArgument else Inr (nat \<lfloor>n\<rfloor>))"

text \<open>Modelled from the spec: \<^verbatim>\<open>next()\<close> of a stream derived by drop (Stream.ts is
  absent).\<close>

fun drop_next :: "nat \<times> 'a list \<Rightarrow> 'a option \<times> (nat \<times> 'a list)" where
  "drop_next (n, []) = (None, (0, []))"
| "drop_next (0, x # xs) = (Some x, (0, xs))"
| "drop_next (Suc n, x # xs) = drop_next (n, xs)"

text \<open>Modelled from the spec: the state of a stream derived by \<^verbatim>\<open>step(n)\<close> (Stream.ts is
  absent): walking forward with a stride, or backward over the materialized rest of the
  parent.\<close>

datatype 'a stepper = Forward nat | Backward nat | Materialized nat "'a list"

text \<open>Modelled from the spec: \<^verbatim>\<open>step(n)\<close> (Stream.ts is absent): zero and non-integers
  are refused when the stream is derived.\<close>

definition step :: "rat \<Rightarrow> error + 'a stepper" where
  "step n =
     (if n = 0 \<or> \<not> is_integer n then Inl InvalidArgument
      else if 0 < n then Inr (Forward (nat \<lfloor>n\<rfloor>))
      else Inr (Backward (nat (- \<lfloor>n\<rfloor>))))"

text \<open>Modelled from the spec: skipping \<open>n\<close> elements of a cursor and yielding the next
  one (Stream.ts is absent); used by step, and by at for a non-negative index.\<close>

fun skip_then_next :: "nat \<Rightarrow> 'a list \<Rightarrow> 'a option \<times> 'a list" where
  "skip_then_next n [] = (None, [])"
| "skip_then_next 0 (x # xs) = (Some x, xs)"
| "skip_then_next (Suc n) (x # xs) = skip_then_next n xs"

text \<open>Modelled from the spec: \<^verbatim>\<open>next()\<close> of a stream derived by step (Stream.ts is
  absent). A positive \<open>n\<close> skips \<open>n - 1\<close> elements before each yield; a negative one
  first drains the parent, then walks what it drained backward with the same stride.\<close>

fun step_next :: "'a stepper \<times> 'a list \<Rightarrow> 'a option \<times> ('a stepper \<times> 'a list)" where
  "step_next (Forward n, s) = (let (r, s') = skip_then_next (n - 1) s in (r, (Forward n, s')))"
| "step_next (Backward n, s) =
     (let (all, s') = collect s; (r, m) = skip_then_next (n - 1) (rev all)
      in (r, (Materialized n m, s')))"
| "step_next (Materialized n m, s) =
     (let (r, m') = skip_then_next (n - 1) m in (r, (Materialized n m', s)))"

subsection \<open>takeWhile, takeUntil\<close>

text \<open>Modelled from the spec: \<^verbatim>\<open>next()\<close> of a stream derived by \<^verbatim>\<open>takeWhile(predicate)\<close>
  (Stream.ts is absent). The state is a flag, set once the stream has ended, and the
  parent's cursor. The element that first fails the predicate is pulled from the parent
  and discarded: it ends the derived stream and the parent's cursor is left after it.\<close>

fun takeWhile_next :: "('a \<Rightarrow> bool) \<Rightarrow> bool \<times> 'a list \<Rightarrow> 'a option \<times> (bool \<times> 'a list)" where
  "takeWhile_next predicate (True, s) = (None, (True, s))"
| "takeWhile_next predicate (False, []) = (None, (True, []))"
| "takeWhile_next predicate (False, x # xs) =
     (if predicate x then (Some x, (False, xs)) else (None, (True, xs)))"

text \<open>Modelled from the spec: \<^verbatim>\<open>takeUntil(predicate)\<close> (Stream.ts is absent): takeWhile
  of the negated predicate.\<close>

definition takeUntil_next :: "('a \<Rightarrow> bool) \<Rightarrow> bool \<times> 'a list \<Rightarrow> 'a option \<times> (bool \<times> 'a list)" where
  "takeUntil_next predicate = takeWhile_next (\<lambda>x. \<not> predicate x)"

lemma takeWhile_next_shrinks:
  "takeWhile_next predicate st = (Some y, st') \<Longrightarrow> length (snd st') < length (snd st)"
  by (induction predicate st rule: takeWhile_next.induct) (auto split: if_splits)

text \<open>Modelled from the spec: draining a stream derived by takeWhile,
  \<^verbatim>\<open>[...stream.takeWhile(predicate)]\<close> (Stream.ts is absent): \<^verbatim>\<open>next()\<close> until the
  end.\<close>

function takeWhile_collect :: "('a \<Rightarrow> bool) \<Rightarrow> bool \<times> 'a list \<Rightarrow> 'a list \<times> (bool \<times> 'a list)" where
  "takeWhile_collect predicate st =
     (case takeWhile_next predicate st of
        (None, st') \<Rightarrow> ([], st')
      | (Some y, st') \<Rightarrow> (let (ys, st'') = takeWhile_collect predicate st' in (y # ys, st'')))"
  by pat_completeness auto
termination
  by (relation "measure (\<lambda>(predicate, st). length (snd st))")
     (auto dest: takeWhile_next_shrinks [OF sym])

declare takeWhile_collect.simps [simp del]

text \<open>Modelled from the spec: draining a stream derived by takeUntil (Stream.ts is
  absent).\<close>

definition takeUntil_collect :: "('a \<Rightarrow> bool) \<Rightarrow> bool \<times> 'a list \<Rightarrow> 'a list \<times> (bool \<times> 'a list)" where
  "takeUntil_collect predicate = takeWhile_collect (\<lambda>x. \<not> predicate x)"

subsection \<open>at\<close>

text \<open>Modelled from the spec: what \<^verbatim>\<open>at\<close> found (Stream.ts is absent): the element at
  the index, the result of the fallback, or nothing.\<close>

datatype 'a at_outcome = Found 'a | Fallback 'a | Missing

text \<open>Modelled from the spec: the value \<^verbatim>\<open>at\<close> returns for an outcome (Stream.ts is
  absent); the missing sentinel is \<^verbatim>\<open>undefined\<close> (Main.ts: "should return undefined if
  the index doesn't exist").\<close>

fun returned :: "jsval at_outcome \<Rightarrow> jsval" where
  "returned (Found v) = v"
| "returned (Fallback v) = v"
| "returned Missing = JUndefined"

text \<open>Modelled from the spec: the out-of-range branch of \<^verbatim>\<open>at\<close> (Stream.ts is absent):
  the fallback is invoked if one was supplied.\<close>

definition or_else :: "(unit \<Rightarrow> 'a) option \<Rightarrow> 'a at_outcome" where
  "or_else orElse = (case orElse of None \<Rightarrow> Missing | Some f \<Rightarrow> Fallback (f ()))"

text \<open>Modelled from the spec: \<^verbatim>\<open>at(index, orElse?)\<close> (Stream.ts is absent). A non-integer
  index is refused before anything is pulled. A non-negative index pulls up to and
  including that position; a negative one drains the stream and counts from the end.
  The second component is the stream's cursor afterwards.\<close>

definition at_stream :: "rat \<Rightarrow> (unit \<Rightarrow> 'a) option \<Rightarrow> 'a list \<Rightarrow> (error + 'a at_outcome) \<times> 'a list" where
  "at_stream index orElse s =
     (if \<not> is_integer index then (Inl InvalidArgument, s)
      else if 0 \<le> index then
        (case skip_then_next (nat \<lfloor>index\<rfloor>) s of
           (Some v, s') \<Rightarrow> (Inr (Found v), s')
         | (None, s') \<Rightarrow> (Inr (or_else orElse), s'))
      else
        (let (all, s') = collect s; j = int (length all) + \<lfloor>index\<rfloor>
         in if 0 \<le> j then (Inr (Found (all ! nat j)), s') else (Inr (or_else orElse), s')))"

subsection \<open>flatMap\<close>

text \<open>Modelled from the spec: the members of a value that is an iterable container and
  not text (Stream.ts is absent). \<open>JArray\<close> stands for the iterable containers; a string
  is text and every other value is not iterable.\<close>

fun iterable_members :: "jsval \<Rightarrow> jsval list option" where
  "iterable_members (JArray members) = Some members"
| "iterable_members v = None"

text \<open>Modelled from the spec: the result flatMap looks at for an element (Stream.ts is
  absent): the mapper applied to it if a mapper was given, else the element itself.\<close>

definition mapped :: "(jsval \<Rightarrow> jsval) option \<Rightarrow> jsval \<Rightarrow> jsval" where
  "mapped mapper x = (case mapper of None \<Rightarrow> x | Some f \<Rightarrow> f x)"

text \<open>Modelled from the spec: \<^verbatim>\<open>next()\<close> of a stream derived by \<^verbatim>\<open>flatMap(mapper?)\<close>
  (Stream.ts is absent). The state holds the members of the current container that are
  still to be yielded, and the parent's cursor. When no member is pending the parent is
  pulled: a container's members become pending (an empty one is passed over), any other
  result is yielded as a single item.\<close>

fun flatMap_next ::
  "(jsval \<Rightarrow> jsval) option \<Rightarrow> jsval list \<times> jsval list \<Rightarrow> jsval option \<times> (jsval list \<times> jsval list)" where
  "flatMap_next mapper (m # pending, s) = (Some m, (pending, s))"
| "flatMap_next mapper ([], []) = (None, ([], []))"
| "flatMap_next mapper ([], x # xs) =
     (case iterable_members (mapped mapper x) of
        Some members \<Rightarrow> flatMap_next mapper (members, xs)
      | None \<Rightarrow> (Some (mapped mapper x), ([], xs)))"

lemma flatMap_next_shrinks:
  "flatMap_next mapper st = (Some y, st') \<Longrightarrow>
     length (snd st') < length (snd st) \<or>
     (length (snd st') = length (snd st) \<and> length (fst st') < length (fst st))"
proof (induction mapper st rule: flatMap_next.induct)
  case (3 mapper x xs)
  show ?case
  proof (cases "iterable_members (mapped mapper x)")
    case None
    with "3.prems" show ?thesis by auto
  next
    case (Some members)
    with "3.prems" have "flatMap_next mapper (members, xs) = (Some y, st')" by simp
    from "3.IH" [OF Some this] show ?thesis by auto
  qed
qed auto

text \<open>Modelled from the spec: draining a stream derived by flatMap (Stream.ts is
  absent).\<close>

function flatMap_collect ::
  "(jsval \<Rightarrow> jsval) option \<Rightarrow> jsval list \<times> jsval list \<Rightarrow> jsval list \<times> (jsval list \<times> jsval list)" where
  "flatMap_collect mapper st =
     (case flatMap_next mapper st of
        (None, st') \<Rightarrow> ([], st')
      | (Some y, st') \<Rightarrow> (let (ys, st'') = flatMap_collect mapper st' in (y # ys, st'')))"
  by pat_completeness auto
termination
  by (relation "measures [\<lambda>(mapper, st). length (snd st), \<lambda>(mapper, st). length (fst st)]")
     (auto dest: flatMap_next_shrinks [OF sym])

declare flatMap_collect.simps [simp del]

subsection \<open>partition\<close>

text \<open>Modelled from the spec: the key-to-buffer mapping of a PartitionStream (Stream.ts
  is absent), in first-seen-key insertion order: an association list with one entry per
  key.\<close>

type_synonym ('k, 'a) buffers = "('k \<times> 'a list) list"

text \<open>Modelled from the spec: delivering an element pulled from the parent to the buffer
  of its key (Stream.ts is absent). The element goes to the end of the buffer; a key seen
  for the first time gets a new entry after the existing ones.\<close>

fun deliver :: "'k \<Rightarrow> 'a \<Rightarrow> ('k, 'a) buffers \<Rightarrow> ('k, 'a) buffers" where
  "deliver k x [] = [(k, [x])]"
| "deliver k x ((k', b) # bufs) =
     (if k' = k then (k', b @ [x]) # bufs else (k', b) # deliver k x bufs)"

text \<open>Modelled from the spec: a sub-stream taking the first element of its key's buffer
  (Stream.ts is absent).\<close>

fun shift :: "'k \<Rightarrow> ('k, 'a) buffers \<Rightarrow> 'a option \<times> ('k, 'a) buffers" where
  "shift k [] = (None, [])"
| "shift k ((k', b) # bufs) =
     (if k' = k then
        (case b of [] \<Rightarrow> (None, (k', b) # bufs) | x # b' \<Rightarrow> (Some x, (k', b') # bufs))
      else (let (r, bufs') = shift k bufs in (r, (k', b) # bufs')))"

text \<open>Modelled from the spec: \<^verbatim>\<open>next()\<close> of the sub-stream \<^verbatim>\<open>get(k)\<close> (Stream.ts is
  absent). The state is the parent's cursor and the buffers. The sub-stream first drains
  what is buffered under its key, then pulls the parent, delivering each pulled element
  to the buffer of that element's key, until an element of its own key arrives or the
  parent is exhausted. A key has an entry in the mapping once an element of that key
  has been pulled.\<close>

fun get_next :: "('a \<Rightarrow> 'k) \<Rightarrow> 'k \<Rightarrow> 'a list \<times> ('k, 'a) buffers \<Rightarrow> 'a option \<times> ('a list \<times> ('k, 'a) buffers)" where
  "get_next sorter k (s, bufs) =
     (case shift k bufs of
        (Some x, bufs') \<Rightarrow> (Some x, (s, bufs'))
      | (None, _) \<Rightarrow>
          (case s of
             [] \<Rightarrow> (None, ([], bufs))
           | x # xs \<Rightarrow> get_next sorter k (xs, deliver (sorter x) x bufs)))"

text \<open>Modelled from the spec: \<^verbatim>\<open>next()\<close> of the stream \<^verbatim>\<open>partitions()\<close> (Stream.ts is
  absent). The state adds the position of this stream in the list of keys. It yields the
  key at its position (the pair's sub-stream is \<^verbatim>\<open>get\<close> of that key); when every known
  key has been yielded it pulls the parent, delivering each element, until a new key
  appears or the parent is exhausted.\<close>

fun partitions_next :: "('a \<Rightarrow> 'k) \<Rightarrow> nat \<times> 'a list \<times> ('k, 'a) buffers \<Rightarrow> 'k option \<times> (nat \<times> 'a list \<times> ('k, 'a) buffers)" where
  "partitions_next sorter (i, s, bufs) =
     (if i < length bufs then (Some (fst (bufs ! i)), (Suc i, s, bufs))
      else
        (case s of
           [] \<Rightarrow> (None, (i, [], bufs))
         | x # xs \<Rightarrow> partitions_next sorter (i, xs, deliver (sorter x) x bufs)))"

text \<open>The keys of the mapping in insertion order, and the buffer of a key (empty for a
  key that has no entry).\<close>

definition keys :: "('k, 'a) buffers \<Rightarrow> 'k list" where
  "keys bufs = map fst bufs"

definition buffer :: "'k \<Rightarrow> ('k, 'a) buffers \<Rightarrow> 'a list" where
  "buffer k bufs = (case map_of bufs k of None \<Rightarrow> [] | Some b \<Rightarrow> b)"

text \<open>The buffers after every element of a list has been delivered.\<close>

definition deliver_all :: "('a \<Rightarrow> 'k) \<Rightarrow> 'a list \<Rightarrow> ('k, 'a) buffers \<Rightarrow> ('k, 'a) buffers" where
  "deliver_all sorter xs bufs = fold (\<lambda>x. deliver (sorter x) x) xs bufs"

text \<open>First-seen order: the distinct members of a list, each at the place of its first
  occurrence.\<close>

definition first_seen :: "'k list \<Rightarrow> 'k list" where
  "first_seen ks = rev (remdups (rev ks))"

text \<open>Modelled from the spec: interleaved consumption (Stream.ts is absent). A pull is one
  \<^verbatim>\<open>next()\<close> call, on the sub-stream of a key or on the stream of partitions; what it
  yields is a value of a sub-stream or the entry of a key. A schedule is a list of
  pulls, run in order from a state of the partition engine.\<close>

datatype 'k pull = Get 'k | Partitions

datatype ('k, 'a) yielded = Value 'k 'a | Entry 'k

fun pull_next ::
  "('a \<Rightarrow> 'k) \<Rightarrow> 'k pull \<Rightarrow> nat \<times> 'a list \<times> ('k, 'a) buffers \<Rightarrow>
     ('k, 'a) yielded option \<times> (nat \<times> 'a list \<times> ('k, 'a) buffers)" where
  "pull_next sorter (Get k) (i, s, bufs) =
     (case get_next sorter k (s, bufs) of (r, (s', bufs')) \<Rightarrow> (map_option (Value k) r, (i, s', bufs')))"
| "pull_next sorter Partitions st =
     (case partitions_next sorter st of (r, st') \<Rightarrow> (map_option Entry r, st'))"

fun run ::
  "('a \<Rightarrow> 'k) \<Rightarrow> 'k pull list \<Rightarrow> nat \<times> 'a list \<times> ('k, 'a) buffers \<Rightarrow>
     ('k, 'a) yielded list \<times> (nat \<times> 'a list \<times> ('k, 'a) buffers)" where
  "run sorter [] st = ([], st)"
| "run sorter (p # ps) st =
     (let (r, st') = pull_next sorter p st; (out, st'') = run sorter ps st'
      in ((case r of None \<Rightarrow> out | Some y \<Rightarrow> y # out), st''))"

text \<open>The values that the sub-stream of one key has yielded in the output of a schedule,
  and the values that all the sub-streams have yielded, in the order of the pulls.\<close>

fun values_of :: "'k \<Rightarrow> ('k, 'a) yielded list \<Rightarrow> 'a list" where
  "values_of k [] = []"
| "values_of k (Value k' x # out) = (if k' = k then x # values_of k out else values_of k out)"
| "values_of k (Entry k' # out) = values_of k out"

fun all_values :: "('k, 'a) yielded list \<Rightarrow> 'a list" where
  "all_values [] = []"
| "all_values (Value k x # out) = x # all_values out"
| "all_values (Entry k # out) = all_values out"

subsection \<open>The partition engine terminates\<close>

lemma keys_deliver:
  "keys (deliver k x bufs) = (if k \<in> set (keys bufs) then keys bufs else keys bufs @ [k])"
  by (induction bufs) (force simp: keys_def)+

lemma buffer_deliver:
  "buffer k' (deliver k x bufs) = (if k' = k then buffer k bufs @ [x] else buffer k' bufs)"
  by (induction bufs) (auto simp: buffer_def)

lemma length_deliver:
  "length bufs \<le> length (deliver k x bufs) \<and> length (deliver k x bufs) \<le> Suc (length bufs)"
  by (induction bufs) auto

lemma distinct_keys_deliver: "distinct (keys bufs) \<Longrightarrow> distinct (keys (deliver k x bufs))"
  by (simp add: keys_deliver)

lemma shift_None:
  "shift k bufs = (None, bufs') \<Longrightarrow> bufs' = bufs \<and> buffer k bufs = []"
  by (induction bufs arbitrary: bufs') (auto simp: buffer_def split: if_splits list.splits prod.splits)

lemma shift_Some:
  "shift k bufs = (Some x, bufs') \<Longrightarrow>
     keys bufs' = keys bufs \<and> buffer k bufs = x # buffer k bufs' \<and>
     (\<forall>k'. k' \<noteq> k \<longrightarrow> buffer k' bufs' = buffer k' bufs)"
  by (induction bufs arbitrary: bufs')
     (auto simp: buffer_def keys_def split: if_splits list.splits prod.splits)

lemma shift_Nil: "buffer k bufs = [] \<Longrightarrow> shift k bufs = (None, bufs)"
  by (induction bufs) (auto simp: buffer_def split: if_splits list.splits prod.splits)

lemma first_seen_snoc:
  "first_seen (ks @ [k]) = (if k \<in> set ks then first_seen ks else first_seen ks @ [k])"
  by (simp add: first_seen_def)

lemma set_first_seen [simp]: "set (first_seen ks) = set ks"
  by (simp add: first_seen_def)

lemma distinct_first_seen [simp]: "distinct (first_seen ks)"
  by (simp add: first_seen_def)

lemma deliver_all_Nil [simp]: "deliver_all f [] bufs = bufs"
  by (simp add: deliver_all_def)

lemma deliver_all_Cons [simp]: "deliver_all f (x # xs) bufs = deliver_all f xs (deliver (f x) x bufs)"
  by (simp add: deliver_all_def)

lemma deliver_all_append: "deliver_all f (xs @ ys) bufs = deliver_all f ys (deliver_all f xs bufs)"
  by (simp add: deliver_all_def)

lemma buffer_deliver_all:
  "buffer k (deliver_all f xs bufs) = buffer k bufs @ filter (\<lambda>x. f x = k) xs"
  by (induction xs arbitrary: bufs) (auto simp: buffer_deliver)

lemma keys_deliver_all:
  "keys bufs = first_seen (map f pulled) \<Longrightarrow>
     keys (deliver_all f xs bufs) = first_seen (map f (pulled @ xs))"
proof (induction xs arbitrary: bufs pulled)
  case Nil
  then show ?case by simp
next
  case (Cons x xs)
  have "keys (deliver (f x) x bufs) = first_seen (map f (pulled @ [x]))"
    using Cons.prems by (simp add: keys_deliver first_seen_snoc)
  from Cons.IH [OF this] show ?case by simp
qed

lemma distinct_keys_deliver_all:
  "distinct (keys bufs) \<Longrightarrow> distinct (keys (deliver_all f xs bufs))"
  by (induction xs arbitrary: bufs) (simp_all add: distinct_keys_deliver)

lemma length_deliver_all:
  "length bufs \<le> length (deliver_all f xs bufs) \<and>
   length (deliver_all f xs bufs) \<le> length xs + length bufs"
proof (induction xs arbitrary: bufs)
  case Nil
  then show ?case by simp
next
  case (Cons x xs)
  show ?case using Cons.IH [of "deliver (f x) x bufs"] length_deliver [of bufs "f x" x] by simp
qed

lemma mset_deliver:
  "mset (concat (map snd (deliver k x bufs))) = mset (concat (map snd bufs)) + {#x#}"
  by (induction bufs) auto

lemma mset_deliver_all:
  "mset (concat (map snd (deliver_all f xs bufs))) = mset (concat (map snd bufs)) + mset xs"
  by (induction xs arbitrary: bufs) (simp_all add: mset_deliver)

lemma mset_shift:
  "shift k bufs = (Some x, bufs') \<Longrightarrow>
     mset (concat (map snd bufs)) = {#x#} + mset (concat (map snd bufs'))"
  by (induction bufs arbitrary: bufs') (auto split: if_splits list.splits prod.splits)

lemma get_next_effect:
  assumes "get_next f k (s, bufs) = (r, (s', bufs'))"
  shows "\<exists>new. s = new @ s' \<and> keys bufs' = keys (deliver_all f new bufs)
           \<and> buffer k (deliver_all f new bufs) = (case r of None \<Rightarrow> [] | Some y \<Rightarrow> [y]) @ buffer k bufs'
           \<and> (\<forall>k'. k' \<noteq> k \<longrightarrow> buffer k' bufs' = buffer k' (deliver_all f new bufs))
           \<and> (r = None \<longrightarrow> s' = [] \<and> bufs' = deliver_all f new bufs \<and> buffer k bufs' = [])"
  using assms
proof (induction f k "(s, bufs)" arbitrary: s bufs rule: get_next.induct)
  case (1 f k s bufs)
  obtain r0 b0 where sh: "shift k bufs = (r0, b0)" by (cases "shift k bufs")
  show ?case
  proof (cases r0)
    case (Some x)
    with sh "1.prems" have res: "r = Some x" "s' = s" "bufs' = b0" by auto
    from sh Some have "shift k bufs = (Some x, b0)" by simp
    from shift_Some [OF this] have
      sk: "keys b0 = keys bufs" and sb: "buffer k bufs = x # buffer k b0"
      and so: "\<forall>k'. k' \<noteq> k \<longrightarrow> buffer k' b0 = buffer k' bufs"
      by blast+
    have c1: "keys b0 = keys (deliver_all f [] bufs)"
      by (simp add: sk)
    have c2: "buffer k (deliver_all f [] bufs) = [x] @ buffer k b0"
      by (simp add: sb)
    have c3: "\<forall>k'. k' \<noteq> k \<longrightarrow> buffer k' b0 = buffer k' (deliver_all f [] bufs)"
      by (simp add: so)
    show ?thesis
      unfolding res
    proof (intro exI [of _ "[]"] conjI)
      show "s = [] @ s" by simp
      show "keys b0 = keys (deliver_all f [] bufs)" by (rule c1)
      show "buffer k (deliver_all f [] bufs) =
          (case Some x of None \<Rightarrow> [] | Some y \<Rightarrow> [y]) @ buffer k b0"
        using c2 by simp
      show "\<forall>k'. k' \<noteq> k \<longrightarrow> buffer k' b0 = buffer k' (deliver_all f [] bufs)" by (rule c3)
      show "Some x = None \<longrightarrow> s = [] \<and> b0 = deliver_all f [] bufs \<and> buffer k b0 = []" by simp
    qed
  next
    case None
    note r0 = None
    with sh have b0: "b0 = bufs" and empty: "buffer k bufs = []"
      using shift_None [of k bufs b0] by auto
    show ?thesis
    proof (cases s)
      case Nil
      with sh r0 "1.prems" have "r = None" "s' = []" "bufs' = bufs" by auto
      with Nil empty show ?thesis by (intro exI [of _ "[]"]) auto
    next
      case (Cons x xs)
      with sh r0 "1.prems" have rec: "get_next f k (xs, deliver (f x) x bufs) = (r, (s', bufs'))"
        by auto
      from "1.hyps" [OF sh [symmetric] r0 Cons rec]
      obtain new where new: "xs = new @ s'"
        "keys bufs' = keys (deliver_all f new (deliver (f x) x bufs))"
        "buffer k (deliver_all f new (deliver (f x) x bufs)) =
           (case r of None \<Rightarrow> [] | Some y \<Rightarrow> [y]) @ buffer k bufs'"
        "\<forall>k'. k' \<noteq> k \<longrightarrow> buffer k' bufs' = buffer k' (deliver_all f new (deliver (f x) x bufs))"
        "r = None \<longrightarrow> s' = [] \<and> bufs' = deliver_all f new (deliver (f x) x bufs)
           \<and> buffer k bufs' = []"
        by blast
      show ?thesis
      proof (intro exI [of _ "x # new"] conjI)
        show "s = (x # new) @ s'" using Cons new(1) by simp
        show "keys bufs' = keys (deliver_all f (x # new) bufs)" using new(2) by simp
        show "buffer k (deliver_all f (x # new) bufs) =
            (case r of None \<Rightarrow> [] | Some y \<Rightarrow> [y]) @ buffer k bufs'"
          using new(3) by simp
        show "\<forall>k'. k' \<noteq> k \<longrightarrow> buffer k' bufs' = buffer k' (deliver_all f (x # new) bufs)"
          using new(4) by simp
        show "r = None \<longrightarrow> s' = [] \<and> bufs' = deliver_all f (x # new) bufs \<and> buffer k bufs' = []"
          using new(5) by (metis deliver_all_Cons)
      qed
    qed
  qed
qed

lemma get_next_shrinks:
  assumes "get_next f k (s, bufs) = (Some y, (s', bufs'))"
  shows "length s' + length (buffer k bufs') < length s + length (buffer k bufs)"
proof -
  from get_next_effect [OF assms] obtain new where
    new: "s = new @ s'" "buffer k (deliver_all f new bufs) = [y] @ buffer k bufs'"
    by auto
  have "length (buffer k (deliver_all f new bufs)) \<le> length (buffer k bufs) + length new"
    by (simp add: buffer_deliver_all)
  with new show ?thesis by simp
qed

text \<open>Modelled from the spec: draining the sub-stream of a key, \<^verbatim>\<open>[...partitions.get(k)]\<close>
  (Stream.ts is absent).\<close>

function get_collect :: "('a \<Rightarrow> 'k) \<Rightarrow> 'k \<Rightarrow> 'a list \<times> ('k, 'a) buffers \<Rightarrow> 'a list \<times> ('a list \<times> ('k, 'a) buffers)" where
  "get_collect sorter k st =
     (case get_next sorter k st of
        (None, st') \<Rightarrow> ([], st')
      | (Some y, st') \<Rightarrow> (let (ys, st'') = get_collect sorter k st' in (y # ys, st'')))"
  by pat_completeness auto
termination
proof (relation "measure (\<lambda>(sorter, k, s, bufs). length s + length (buffer k bufs))")
  show "wf (measure (\<lambda>(sorter, k, s, bufs). length s + length (buffer k bufs)))" by simp
next
  fix sorter :: "'a \<Rightarrow> 'k" and k st x1 st' y
  assume "(x1, st') = get_next sorter k st" "x1 = Some y"
  then have "get_next sorter k (fst st, snd st) = (Some y, (fst st', snd st'))" by simp
  from get_next_shrinks [OF this]
  show "((sorter, k, st'), (sorter, k, st)) \<in> measure (\<lambda>(sorter, k, s, bufs). length s + length (buffer k bufs))"
    by (simp add: case_prod_beta)
qed

declare get_collect.simps [simp del]

lemma keys_deliver_all_cong:
  "keys b = keys b' \<Longrightarrow> keys (deliver_all f xs b) = keys (deliver_all f xs b')"
  by (induction xs arbitrary: b b') (simp_all add: keys_deliver)

lemma get_collect_effect:
  assumes "get_collect f k (s, bufs) = (ys, (s', bufs'))"
  shows "s' = [] \<and> keys bufs' = keys (deliver_all f s bufs)
         \<and> ys = buffer k (deliver_all f s bufs) \<and> buffer k bufs' = []
         \<and> (\<forall>k'. k' \<noteq> k \<longrightarrow> buffer k' bufs' = buffer k' (deliver_all f s bufs))"
  using assms
proof (induction f k "(s, bufs)" arbitrary: s bufs ys rule: get_collect.induct)
  case (1 f k s bufs)
  obtain r s1 b1 where gn: "get_next f k (s, bufs) = (r, (s1, b1))"
    by (metis prod.exhaust)
  from get_next_effect [OF gn] obtain new where new: "s = new @ s1"
    "keys b1 = keys (deliver_all f new bufs)"
    "buffer k (deliver_all f new bufs) = (case r of None \<Rightarrow> [] | Some y \<Rightarrow> [y]) @ buffer k b1"
    "\<forall>k'. k' \<noteq> k \<longrightarrow> buffer k' b1 = buffer k' (deliver_all f new bufs)"
    "r = None \<longrightarrow> s1 = [] \<and> b1 = deliver_all f new bufs \<and> buffer k b1 = []"
    by blast
  show ?case
  proof (cases r)
    case None
    with gn "1.prems" have "ys = []" "s' = s1" "bufs' = b1"
      by (auto simp: get_collect.simps [of f k "(s, bufs)"])
    with None new show ?thesis by auto
  next
    case (Some y)
    obtain ys1 where rec: "get_collect f k (s1, b1) = (ys1, (s', bufs'))" and ys: "ys = y # ys1"
      using gn "1.prems" Some
      by (auto simp: get_collect.simps [of f k "(s, bufs)"] split: prod.splits)
    from "1.hyps" [OF gn [symmetric] Some rec]
    have ih: "s' = []" "keys bufs' = keys (deliver_all f s1 b1)"
      "ys1 = buffer k (deliver_all f s1 b1)" "buffer k bufs' = []"
      "\<forall>k'. k' \<noteq> k \<longrightarrow> buffer k' bufs' = buffer k' (deliver_all f s1 b1)"
      by auto
    have k1: "keys (deliver_all f s1 b1) = keys (deliver_all f s bufs)"
      using keys_deliver_all_cong [OF new(2), of f s1] new(1) by (simp add: deliver_all_append)
    have b_other: "buffer k' (deliver_all f s1 b1) = buffer k' (deliver_all f s bufs)" if "k' \<noteq> k" for k'
      using new(1,4) that by (simp add: deliver_all_append buffer_deliver_all)
    have b_k: "y # buffer k (deliver_all f s1 b1) = buffer k (deliver_all f s bufs)"
      using new(1,3) Some by (simp add: deliver_all_append buffer_deliver_all)
    show ?thesis using ih k1 b_other b_k ys by auto
  qed
qed

lemma partitions_next_effect:
  assumes "partitions_next f (i, s, bufs) = (r, (i', s', bufs'))"
  shows "\<exists>new. s = new @ s' \<and> bufs' = deliver_all f new bufs \<and>
           (case r of
              Some k \<Rightarrow> i' = Suc i \<and> i < length bufs' \<and> k = fst (bufs' ! i)
            | None \<Rightarrow> i' = i \<and> s' = [] \<and> length bufs' \<le> i)"
  using assms
proof (induction f "(i, s, bufs)" arbitrary: i s bufs rule: partitions_next.induct)
  case (1 f i s bufs)
  show ?case
  proof (cases "i < length bufs")
    case True
    with "1.prems" show ?thesis by (intro exI [of _ "[]"]) auto
  next
    case False
    note nlt = False
    show ?thesis
    proof (cases s)
      case Nil
      with nlt "1.prems" show ?thesis by (intro exI [of _ "[]"]) auto
    next
      case (Cons x xs)
      with nlt "1.prems" have "partitions_next f (i, xs, deliver (f x) x bufs) = (r, (i', s', bufs'))"
        by simp
      from "1.hyps" [OF nlt Cons this] obtain new where
        "xs = new @ s'" "bufs' = deliver_all f new (deliver (f x) x bufs)"
        "(case r of
              Some k \<Rightarrow> i' = Suc i \<and> i < length bufs' \<and> k = fst (bufs' ! i)
            | None \<Rightarrow> i' = i \<and> s' = [] \<and> length bufs' \<le> i)"
        by blast
      then show ?thesis using Cons by (intro exI [of _ "x # new"]) auto
    qed
  qed
qed

text \<open>Modelled from the spec: draining the stream of partitions and, for each pair as it
  is yielded, its sub-stream (Stream.ts is absent): Main.ts collects
  \<^verbatim>\<open>[...partitions.partitions().map(([key, values]) => [key, [...values]])]\<close>.\<close>

function partitions_collect ::
  "('a \<Rightarrow> 'k) \<Rightarrow> nat \<times> 'a list \<times> ('k, 'a) buffers \<Rightarrow>
     ('k \<times> 'a list) list \<times> (nat \<times> 'a list \<times> ('k, 'a) buffers)" where
  "partitions_collect sorter st =
     (case partitions_next sorter st of
        (None, st') \<Rightarrow> ([], st')
      | (Some k, (i', s', bufs')) \<Rightarrow>
          (let (values, (s'', bufs'')) = get_collect sorter k (s', bufs');
               (rest, st''') = partitions_collect sorter (i', s'', bufs'')
           in ((k, values) # rest, st''')))"
  by pat_completeness auto
termination
proof (relation "measure (\<lambda>(sorter, i, s, bufs). length s + length bufs - i)")
  show "wf (measure (\<lambda>(sorter, i, s, bufs). length s + length bufs - i))" by simp
next
  fix sorter :: "'a \<Rightarrow> 'k" and st :: "nat \<times> 'a list \<times> ('k, 'a) buffers"
    and r st1 k i1 rest1 s1 b1 gc vs st2 s2 b2
  assume a: "(r, st1) = partitions_next sorter st" "r = Some k" "(i1, rest1) = st1"
    "(s1, b1) = rest1" "gc = get_collect sorter k (s1, b1)" "(vs, st2) = gc" "(s2, b2) = st2"
  obtain i s bufs where st: "st = (i, s, bufs)" by (cases st)
  from a st have pn: "partitions_next sorter (i, s, bufs) = (Some k, (i1, s1, b1))" by simp
  from partitions_next_effect [OF pn] obtain new where new: "s = new @ s1"
    "b1 = deliver_all sorter new bufs" "i1 = Suc i" "i < length b1"
    by auto
  from a have "get_collect sorter k (s1, b1) = (vs, (s2, b2))" by simp
  from get_collect_effect [OF this] have gc: "s2 = []" "keys b2 = keys (deliver_all sorter s1 b1)"
    by auto
  have "length b2 = length (deliver_all sorter s1 b1)"
    using gc(2) by (metis keys_def length_map)
  then have "length b2 \<le> length s1 + length b1"
    using length_deliver_all [of b1 sorter s1] by simp
  moreover have "length b1 \<le> length new + length bufs"
    using new(2) length_deliver_all [of bufs sorter new] by simp
  ultimately have "length s2 + length b2 - i1 < length s + length bufs - i"
    using new gc(1) by simp
  then show "((sorter, i1, s2, b2), (sorter, st)) \<in> measure (\<lambda>(sorter, i, s, bufs). length s + length bufs - i)"
    using st by simp
qed

declare partitions_collect.simps [simp del]

subsection \<open>The calls of the engine and their argument checks\<close>

text \<open>Modelled from the spec: the operations of the engine with their arguments
  (Stream.ts is absent): the generators, the operations that derive a stream, the
  partition operations and the terminal operations. \<open>Call_includes\<close> stands for includes,
  contains and has, \<open>Call_includesAll\<close> for includesAll, containsAll and hasAll;
  \<open>Call_entries_of\<close> is the generator \<^verbatim>\<open>Stream.entries(source, step?)\<close> and \<open>Call_entries\<close>
  the operation \<^verbatim>\<open>entries()\<close> of a stream. Predicates, mappers and key functions are
  functions on values, whose result is read by its truthiness where a condition is
  expected.\<close>

datatype call =
    Call_empty
  | Call_of "jsval list"
  | Call_from jsval
  | Call_values jsval "rat option"
  | Call_keys jsval "rat option"
  | Call_entries_of jsval "rat option"
  | Call_range rat "rat option" "rat option"
  | Call_zip jsval jsval
  | Call_filter "jsval \<Rightarrow> jsval"
  | Call_map "jsval \<Rightarrow> jsval"
  | Call_flatMap "(jsval \<Rightarrow> jsval) option"
  | Call_take rat
  | Call_drop rat
  | Call_takeWhile "jsval \<Rightarrow> jsval"
  | Call_takeUntil "jsval \<Rightarrow> jsval"
  | Call_dropWhile "jsval \<Rightarrow> jsval"
  | Call_dropUntil "jsval \<Rightarrow> jsval"
  | Call_step rat
  | Call_sorted "(jsval \<Rightarrow> jsval \<Rightarrow> jsval) option"
  | Call_reverse
  | Call_distinct
  | Call_shuffle
  | Call_add "jsval list"
  | Call_insert "jsval list"
  | Call_insertAt rat "jsval list"
  | Call_merge "jsval list"
  | Call_collectStream
  | Call_entries
  | Call_partition "jsval \<Rightarrow> jsval"
  | Call_get jsval
  | Call_partitions
  | Call_unzip
  | Call_any "jsval \<Rightarrow> jsval"
  | Call_some "jsval \<Rightarrow> jsval"
  | Call_every "jsval \<Rightarrow> jsval"
  | Call_all "jsval \<Rightarrow> jsval"
  | Call_none "jsval \<Rightarrow> jsval"
  | Call_includes "jsval list"
  | Call_includesAll "jsval list"
  | Call_intersects "jsval list"
  | Call_count "(jsval \<Rightarrow> jsval) option"
  | Call_length
  | Call_size
  | Call_at rat "(unit \<Rightarrow> jsval) option"



section \<open>Properties of filter.js\<close>

lemma Array_filter_elements:
  "Array_filter cb this = map Some (filter (\<lambda>v. ToBoolean (cb v)) (elements this))"
  by (induction this rule: elements.induct) simp_all

lemma ToBoolean_falsey:
  "\<not> ToBoolean v \<longleftrightarrow>
     v \<in> {JUndefined, JNull, JBool False, JNumber NaN, JNumber NegZero, JNumber (Fin 0),
          JBigInt 0, JString []}"
  by (cases v rule: ToBoolean.cases) auto

text \<open>
  C8. For every array, filterNullish returns the elements that are neither undefined
  nor null, in their original order, and filterFalsey with its default argument (no
  argument, which is \<^verbatim>\<open>undefined\<close>) returns the elements that are not undefined, not
  null and not false, in their original order.
\<close>

theorem filterNullish_filterFalsey_default:
  "filterNullish this = map Some (filter (\<lambda>v. v \<noteq> JUndefined \<and> v \<noteq> JNull) (elements this))
   \<and> filterFalsey JUndefined this =
       map Some (filter (\<lambda>v. v \<noteq> JUndefined \<and> v \<noteq> JNull \<and> v \<noteq> JBool False) (elements this))"
  by (simp add: filterNullish_def filterFalsey_def Array_filter_elements)

theorem filterNullish_filterFalsey_default_witness:
  "filterNullish [Some (JNumber (Fin 0)), None, Some JNull, Some (JBool False), Some JUndefined,
                  Some (JString [])]
     = [Some (JNumber (Fin 0)), Some (JBool False), Some (JString [])]
   \<and> filterFalsey JUndefined [Some (JNumber (Fin 0)), None, Some JNull, Some (JBool False),
                              Some JUndefined, Some (JString [])]
     = [Some (JNumber (Fin 0)), Some (JString [])]"
  using filterNullish_filterFalsey_default
    [of "[Some (JNumber (Fin 0)), None, Some JNull, Some (JBool False), Some JUndefined,
          Some (JString [])]"]
  by simp

text \<open>
  C9. With removeZeroAndEmptyString = true, filterFalsey keeps exactly the truthy
  elements, in order: an element is rejected iff it is one of the falsey values, so
  beyond undefined, null, false, 0 and the empty string it also rejects NaN (and
  negative zero and the BigInt zero).
\<close>

theorem filterFalsey_true_truthy:
  "filterFalsey (JBool True) this = map Some (filter ToBoolean (elements this))
   \<and> Some (JNumber NaN) \<notin> set (filterFalsey (JBool True) this)
   \<and> (Some v \<in> set (filterFalsey (JBool True) this) \<longleftrightarrow>
        v \<in> set (elements this) \<and>
        v \<notin> {JUndefined, JNull, JBool False, JNumber NaN, JNumber NegZero, JNumber (Fin 0),
             JBigInt 0, JString []})"
proof -
  have eq: "filterFalsey (JBool True) this = map Some (filter ToBoolean (elements this))"
    by (simp add: filterFalsey_def Array_filter_elements)
  have mem: "Some w \<in> set (filterFalsey (JBool True) this) \<longleftrightarrow>
      w \<in> set (elements this) \<and> ToBoolean w" for w
    unfolding eq by auto
  have nan: "Some (JNumber NaN) \<notin> set (filterFalsey (JBool True) this)"
    by (simp add: mem)
  have falsey: "ToBoolean v \<longleftrightarrow>
      v \<notin> {JUndefined, JNull, JBool False, JNumber NaN, JNumber NegZero, JNumber (Fin 0),
           JBigInt 0, JString []}"
    using ToBoolean_falsey [of v] by blast
  show ?thesis
    using eq nan mem [of v] falsey by blast
qed

theorem filterFalsey_true_truthy_witness:
  "filterFalsey (JBool True)
     [Some (JNumber (Fin 0)), Some (JNumber NaN), None, Some (JString ''a''), Some (JString []),
      Some (JNumber (Fin 2)), Some JNull, Some (JObject 0)]
     = [Some (JString ''a''), Some (JNumber (Fin 2)), Some (JObject 0)]"
  using filterFalsey_true_truthy
    [of "[Some (JNumber (Fin 0)), Some (JNumber NaN), None, Some (JString ''a''),
          Some (JString []), Some (JNumber (Fin 2)), Some JNull, Some (JObject 0)]"]
  by simp

section \<open>Properties of the test task\<close>

text \<open>
  C10. The exit handler rejects the (pending) promise exactly when the exit code is 1,
  with the reason "Error code 1", and fulfils it for every other exit code, null
  included.
\<close>

theorem on_exit_rejects_iff_code_1:
  "(on_exit code Pending = Rejected ''Error code 1'' \<longleftrightarrow> code = Some 1)
   \<and> (on_exit code Pending = Fulfilled \<longleftrightarrow> code \<noteq> Some 1)"
  by (simp add: on_exit_def)

theorem on_exit_rejects_iff_code_1_witness:
  "on_exit (Some 1) Pending = Rejected ''Error code 1''
   \<and> on_exit (Some 2) Pending = Fulfilled
   \<and> on_exit None Pending = Fulfilled"
  using on_exit_rejects_iff_code_1 [of "Some 1"] on_exit_rejects_iff_code_1 [of "Some 2"]
    on_exit_rejects_iff_code_1 [of None]
  by simp

section \<open>Properties of the Stream engine\<close>

lemma collect_eq [simp]: "collect s = (s, [])"
  by (induction s) simp_all


subsection \<open>Rounding and range\<close>


















lemma takeWhile_collect_eq:
  "takeWhile_collect predicate (False, s) =
     (takeWhile predicate s, (True, List.drop (Suc (length (takeWhile predicate s))) s))"
  by (induction s) (simp_all add: takeWhile_collect.simps)

lemma takeWhile_collect_ended:
  "takeWhile_collect predicate (True, s) = ([], (True, s))"
  by (simp add: takeWhile_collect.simps)

lemma skip_then_next_eq:
  "skip_then_next n s = (if n < length s then (Some (s ! n), List.drop (Suc n) s) else (None, []))"
  by (induction n s rule: skip_then_next.induct) simp_all

lemma flatMap_collect_cong:
  "flatMap_next mapper st = flatMap_next mapper st' \<Longrightarrow>
     flatMap_collect mapper st = flatMap_collect mapper st'"
  by (simp add: flatMap_collect.simps [of mapper st] flatMap_collect.simps [of mapper st'])

lemma flatMap_collect_pending:
  "flatMap_collect mapper (pending, s) =
     (pending @ fst (flatMap_collect mapper ([], s)), snd (flatMap_collect mapper ([], s)))"
  by (induction pending)
     (simp_all add: flatMap_collect.simps [of mapper "(_ # _, s)"] split: prod.splits)

lemma flatMap_collect_eq:
  "flatMap_collect mapper ([], s) =
     (concat (map (\<lambda>x. case mapped mapper x of JArray members \<Rightarrow> members | v \<Rightarrow> [v]) s), ([], []))"
proof (induction s)
  case Nil
  then show ?case by (simp add: flatMap_collect.simps)
next
  case (Cons x xs)
  show ?case
  proof (cases "iterable_members (mapped mapper x)")
    case None
    then have v: "(case mapped mapper x of JArray members \<Rightarrow> members | v \<Rightarrow> [v]) = [mapped mapper x]"
      by (cases "mapped mapper x") simp_all
    show ?thesis
      using None Cons.IH v by (simp add: flatMap_collect.simps [of mapper "([], x # xs)"])
  next
    case (Some members)
    then have v: "mapped mapper x = JArray members"
      by (cases "mapped mapper x") simp_all
    have "flatMap_collect mapper ([], x # xs) = flatMap_collect mapper (members, xs)"
      by (rule flatMap_collect_cong) (simp add: Some)
    then show ?thesis
      using Cons.IH v by (simp add: flatMap_collect_pending [of mapper members xs])
  qed
qed

subsection \<open>The expectations of Main.ts\<close>

text \<open>"should contain ints from zero till the given number (exclusive)", "... from the
  given start (inclusive) till the given end (exclusive)", "should produce decimal
  numbers with decimal start or end", "should error if given a step of zero", "should
  skip around with a different step", "should produce decimal numbers with a decimal
  step" (a decimal literal is the double nearest to it, and \<^verbatim>\<open>0.2 * 3\<close> is the rounded
  product).\<close>

lemma test_range:
  "range_stream 3 None None = Some (Inr [0, 1, 2])"
  "range_stream 1 (Some 3) None = Some (Inr [1, 2])"
  "range_stream (3 / 2) None None = Some (Inr [0, 1])"
  "range_stream 2 (Some (11 / 2)) None = Some (Inr [2, 3, 4, 5])"
  "range_stream (7 / 2) (Some (13 / 2)) None = Some (Inr [7 / 2, 9 / 2, 11 / 2])"
  "range_stream 0 (Some 1) (Some 0) = Some (Inl InvalidArgument)"
  "range_stream 0 (Some 6) (Some 2) = Some (Inr [0, 2, 4])"
  "range_stream 0 (Some 1) (Some (double (1 / 5))) =
     Some (Inr [0, double (1 / 5), double (2 / 5), double (double (1 / 5) * 3), double (4 / 5)])"
  by code_simp+

text \<open>Floating accumulation shows where the sum is not exact: from 0.1 with step 1 the
  next value is the double 1.1 itself, so \<^verbatim>\<open>range(0.1, 1.1)\<close> holds 0.1 only.\<close>

lemma range_rounded_sum_reaches_end:
  "range_stream (double (1 / 10)) (Some (double (11 / 10))) None = Some (Inr [double (1 / 10)])"
  by code_simp

text \<open>take, drop and step: "should error when given a negative number", "should error
  when given a decimal number", "should error when given zero or a decimal number".\<close>

lemma test_take_drop_step_errors:
  "take_stream (- 3) = Inl InvalidArgument"
  "take_stream (3 / 2) = Inl InvalidArgument"
  "drop_stream (- 3) = Inl InvalidArgument"
  "drop_stream (3 / 2) = Inl InvalidArgument"
  "(step 0 :: error + rat stepper) = Inl InvalidArgument"
  "(step (3 / 2) :: error + rat stepper) = Inl InvalidArgument"
  by code_simp+

text \<open>take: "should not end the current stream"; step: "should not affect the current
  stream" (two \<^verbatim>\<open>next()\<close> calls on \<^verbatim>\<open>range(8).step(2)\<close> leave 4, 5, 6, 7).\<close>

lemma test_take_step_parent:
  "take_stream 2 = Inr 2"
  "take_next (2, [0, 1, 2, 3, 4 :: rat]) = (Some 0, (1, [1, 2, 3, 4]))"
  "take_next (1, [1, 2, 3, 4 :: rat]) = (Some 1, (0, [2, 3, 4]))"
  "take_next (0, [2, 3, 4 :: rat]) = (None, (0, [2, 3, 4]))"
  "(step 2 :: error + rat stepper) = Inr (Forward 2)"
  "step_next (Forward 2, [0, 1, 2, 3, 4, 5, 6, 7 :: rat]) = (Some 1, (Forward 2, [2, 3, 4, 5, 6, 7]))"
  "step_next (Forward 2, [2, 3, 4, 5, 6, 7 :: rat]) = (Some 3, (Forward 2, [4, 5, 6, 7]))"
  by code_simp+

text \<open>drop: "should skip the number of items requested", "should stream no items when
  given a number bigger than the stream count"; step: "should skip values in reverse
  when given a negative integer" (\<^verbatim>\<open>range(5).step(-2)\<close> is 3, 1).\<close>

lemma test_drop_step_backward:
  "drop_stream 3 = Inr 3"
  "drop_next (3, [0, 1, 2, 3, 4 :: rat]) = (Some 3, (0, [4]))"
  "drop_next (0, [4 :: rat]) = (Some 4, (0, []))"
  "drop_next (5, [0, 1, 2 :: rat]) = (None, (0, []))"
  "(step (- 2) :: error + rat stepper) = Inr (Backward 2)"
  "step_next (Backward 2, [0, 1, 2, 3, 4 :: rat]) = (Some 3, (Materialized 2 [2, 1, 0], []))"
  "step_next (Materialized 2 [2, 1, 0 :: rat], []) = (Some 1, (Materialized 2 [0], []))"
  "step_next (Materialized 2 [0 :: rat], []) = (None, (Materialized 2 [], []))"
  by code_simp+

text \<open>takeWhile and takeUntil: "should stream all items until a condition is false",
  "... if the predicate never returns false", "... if the predicate instantly returns
  false", and the same for takeUntil.\<close>

lemma test_takeWhile:
  "fst (takeWhile_collect (\<lambda>val. val \<noteq> 3) (False, [0, 1, 2, 3, 4 :: rat])) = [0, 1, 2]"
  "fst (takeWhile_collect (\<lambda>val. True) (False, [0, 1, 2, 3, 4 :: rat])) = [0, 1, 2, 3, 4]"
  "fst (takeWhile_collect (\<lambda>val. False) (False, [0, 1, 2, 3, 4 :: rat])) = []"
  by (simp_all add: takeWhile_collect_eq)

lemma test_takeUntil:
  "fst (takeUntil_collect (\<lambda>val. val = 3) (False, [0, 1, 2, 3, 4 :: rat])) = [0, 1, 2]"
  "fst (takeUntil_collect (\<lambda>val. False) (False, [0, 1, 2, 3, 4 :: rat])) = [0, 1, 2, 3, 4]"
  "fst (takeUntil_collect (\<lambda>val. True) (False, [0, 1, 2, 3, 4 :: rat])) = []"
  by (simp_all add: takeUntil_collect_def takeWhile_collect_eq)

text \<open>The two tests "should not end the current stream" of takeWhile and takeUntil
  (Main.ts 268-272 and 288-292) drain \<^verbatim>\<open>range(5).takeWhile(val => val !== 3)\<close> and
  expect the parent to yield 3, 4 afterwards. The rule of the specification, which
  this model follows, discards the element 3 that ended the derived stream: the parent
  yields 4 only, so the model does not meet these two expectations.\<close>

lemma takeWhile_parent_after_drain:
  "fst (collect (snd (snd (takeWhile_collect (\<lambda>val. val \<noteq> 3) (False, [0, 1, 2, 3, 4 :: rat])))))
     = [4]"
  "fst (collect (snd (snd (takeUntil_collect (\<lambda>val. val = 3) (False, [0, 1, 2, 3, 4 :: rat])))))
     = [4]"
  by (simp_all add: takeUntil_collect_def takeWhile_collect_eq)

text \<open>flatMap: "should iterate through each value of each iterable", "should stream
  non-iterable values normally", "should not break apart strings", "should allow a
  mapping function to be passed", "should not split strings produced by the mapping
  function", "should not replace values in the current stream". The mapper
  \<^verbatim>\<open>str => str.split("")\<close> is the function from a string to the array of its
  characters.\<close>

lemma test_flatMap:
  "fst (flatMap_collect None ([], [JArray [num 0, num 0], JArray [num 1, num 2], JArray [num 2, num 4]]))
     = [num 0, num 0, num 1, num 2, num 2, num 4]"
  "fst (flatMap_collect None ([], [num 0, JArray [num 1, num 2], JArray [num 2, num 4]]))
     = [num 0, num 1, num 2, num 2, num 4]"
  "fst (flatMap_collect None ([], [JString ''foo'', JString ''bar''])) = [JString ''foo'', JString ''bar'']"
  "fst (flatMap_collect
          (Some (\<lambda>v. case v of JString str \<Rightarrow> JArray (map (\<lambda>c. JString [c]) str) | _ \<Rightarrow> v))
          ([], [JString ''foo'', JString ''bar'']))
     = [JString ''f'', JString ''o'', JString ''o'', JString ''b'', JString ''a'', JString ''r'']"
  "fst (flatMap_collect (Some (\<lambda>str. str)) ([], [JString ''foo'', JString ''bar'']))
     = [JString ''foo'', JString ''bar'']"
  by (simp_all add: flatMap_collect_eq mapped_def)

lemma test_flatMap_parent:
  "flatMap_next None ([], [JArray [num 0, num 0], JArray [num 1, num 2], JArray [num 2, num 4]])
     = (Some (num 0), ([num 0], [JArray [num 1, num 2], JArray [num 2, num 4]]))"
  "flatMap_next None ([num 0], [JArray [num 1, num 2], JArray [num 2, num 4]])
     = (Some (num 0), ([], [JArray [num 1, num 2], JArray [num 2, num 4]]))"
  "flatMap_next None ([], [JArray [num 1, num 2], JArray [num 2, num 4]])
     = (Some (num 1), ([num 2], [JArray [num 2, num 4]]))"
  by (simp_all add: mapped_def)

text \<open>at: "should return the value at the given index", "should accept negative
  indices", "should return undefined if the index doesn't exist", "should error if
  given a non-integer", "should allow providing an 'orElse' method for generating
  replacement values", "should not use the 'orElse' method when the value in the
  stream is 'undefined'".\<close>

lemma test_at:
  "fst (at_stream 2 None [num 0, num 1, num 2]) = Inr (Found (num 2))"
  "fst (at_stream 0 None [num 0, num 1, num 2]) = Inr (Found (num 0))"
  "fst (at_stream (- 1) None [num 0, num 1, num 2]) = Inr (Found (num 2))"
  "fst (at_stream (- 3) None [num 0, num 1, num 2]) = Inr (Found (num 0))"
  "fst (at_stream 3 None [num 0, num 1, num 2]) = Inr Missing"
  "fst (at_stream (- 4) None [num 0, num 1, num 2]) = Inr Missing"
  "fst (at_stream (1 / 10) None [num 0, num 1, num 2]) = Inl InvalidArgument"
  "fst (at_stream 5 (Some (\<lambda>_. num 12)) [num 0, num 1, num 2]) = Inr (Fallback (num 12))"
  "fst (at_stream (- 1) (Some (\<lambda>_. num 13)) [num 0, num 1, num 2]) = Inr (Found (num 2))"
  "fst (at_stream (- 5) (Some (\<lambda>_. num 15)) [num 0, num 1, num 2]) = Inr (Fallback (num 15))"
  "fst (at_stream 1 (Some (\<lambda>_. num 10)) [JUndefined, JUndefined, JUndefined]) = Inr (Found JUndefined)"
  "fst (at_stream (- 2) (Some (\<lambda>_. num 10)) [JUndefined, JUndefined, JUndefined]) = Inr (Found JUndefined)"
  by code_simp+

section \<open>Properties of the partition engine\<close>

lemma pull_next_effect:
  assumes "pull_next f p (i, s, bufs) = (r, (i', s', bufs'))"
  shows "\<exists>new. s = new @ s' \<and> keys bufs' = keys (deliver_all f new bufs)
           \<and> (\<forall>k. buffer k (deliver_all f new bufs) =
                  values_of k (case r of None \<Rightarrow> [] | Some y \<Rightarrow> [y]) @ buffer k bufs')"
proof (cases p)
  case (Get k)
  with assms obtain r0 where gn: "get_next f k (s, bufs) = (r0, (s', bufs'))"
    and r: "r = map_option (Value k) r0"
    by (auto split: prod.splits)
  from get_next_effect [OF gn] obtain new where new: "s = new @ s'"
    "keys bufs' = keys (deliver_all f new bufs)"
    "buffer k (deliver_all f new bufs) = (case r0 of None \<Rightarrow> [] | Some y \<Rightarrow> [y]) @ buffer k bufs'"
    "\<forall>k'. k' \<noteq> k \<longrightarrow> buffer k' bufs' = buffer k' (deliver_all f new bufs)"
    by blast
  have "buffer k' (deliver_all f new bufs) =
      values_of k' (case r of None \<Rightarrow> [] | Some y \<Rightarrow> [y]) @ buffer k' bufs'" for k'
  proof (cases "k' = k")
    case True
    then show ?thesis using new(3) r by (cases r0) simp_all
  next
    case False
    then show ?thesis using new(4) r by (cases r0) simp_all
  qed
  with new(1,2) show ?thesis by blast
next
  case Partitions
  with assms obtain r0 where pn: "partitions_next f (i, s, bufs) = (r0, (i', s', bufs'))"
    and r: "r = map_option Entry r0"
    by (auto split: prod.splits)
  from partitions_next_effect [OF pn] obtain new where new: "s = new @ s'"
    "bufs' = deliver_all f new bufs"
    by blast
  have "buffer k (deliver_all f new bufs) =
      values_of k (case r of None \<Rightarrow> [] | Some y \<Rightarrow> [y]) @ buffer k bufs'" for k
    using new(2) r by (cases r0) simp_all
  with new show ?thesis by blast
qed

lemma values_of_append [simp]: "values_of k (xs @ ys) = values_of k xs @ values_of k ys"
  by (induction k xs rule: values_of.induct) simp_all

lemma run_effect:
  assumes "run f ps (i, s, bufs) = (out, (i', s', bufs'))"
  shows "\<exists>new. s = new @ s' \<and> keys bufs' = keys (deliver_all f new bufs)
           \<and> (\<forall>k. buffer k (deliver_all f new bufs) = values_of k out @ buffer k bufs')"
  using assms
proof (induction ps arbitrary: i s bufs out)
  case Nil
  then have "out = []" "s' = s" "bufs' = bufs" by simp_all
  then show ?case by (intro exI [of _ "[]"]) simp
next
  case (Cons p ps)
  obtain r i1 s1 b1 where pn: "pull_next f p (i, s, bufs) = (r, (i1, s1, b1))"
    by (metis prod.exhaust)
  obtain out1 where rn: "run f ps (i1, s1, b1) = (out1, (i', s', bufs'))"
    and out: "out = (case r of None \<Rightarrow> [] | Some y \<Rightarrow> [y]) @ out1"
    using Cons.prems pn by (auto split: prod.splits option.splits)
  from pull_next_effect [OF pn] obtain n1 where n1: "s = n1 @ s1"
    "keys b1 = keys (deliver_all f n1 bufs)"
    "\<forall>k. buffer k (deliver_all f n1 bufs) =
          values_of k (case r of None \<Rightarrow> [] | Some y \<Rightarrow> [y]) @ buffer k b1"
    by blast
  from Cons.IH [OF rn] obtain n2 where n2: "s1 = n2 @ s'"
    "keys bufs' = keys (deliver_all f n2 b1)"
    "\<forall>k. buffer k (deliver_all f n2 b1) = values_of k out1 @ buffer k bufs'"
    by blast
  show ?case
  proof (intro exI [of _ "n1 @ n2"] conjI allI)
    show "s = (n1 @ n2) @ s'" using n1(1) n2(1) by simp
    show "keys bufs' = keys (deliver_all f (n1 @ n2) bufs)"
      using n2(2) keys_deliver_all_cong [OF n1(2), of f n2] by (simp add: deliver_all_append)
    fix k
    have "buffer k (deliver_all f (n1 @ n2) bufs) =
        buffer k (deliver_all f n1 bufs) @ filter (\<lambda>x. f x = k) n2"
      by (simp add: deliver_all_append buffer_deliver_all)
    also have "\<dots> = values_of k (case r of None \<Rightarrow> [] | Some y \<Rightarrow> [y]) @
        (buffer k b1 @ filter (\<lambda>x. f x = k) n2)"
      using n1(3) by simp
    also have "buffer k b1 @ filter (\<lambda>x. f x = k) n2 = buffer k (deliver_all f n2 b1)"
      by (simp add: buffer_deliver_all)
    also have "\<dots> = values_of k out1 @ buffer k bufs'"
      using n2(3) by simp
    finally show "buffer k (deliver_all f (n1 @ n2) bufs) = values_of k out @ buffer k bufs'"
      using out by simp
  qed
qed

lemma get_next_mset:
  "get_next f k (s, bufs) = (r, (s', bufs')) \<Longrightarrow>
     mset (case r of None \<Rightarrow> [] | Some y \<Rightarrow> [y]) + mset (concat (map snd bufs')) + mset s'
       = mset (concat (map snd bufs)) + mset s"
proof (induction f k "(s, bufs)" arbitrary: s bufs rule: get_next.induct)
  case (1 f k s bufs)
  obtain r0 b0 where sh: "shift k bufs = (r0, b0)" by (cases "shift k bufs")
  show ?case
  proof (cases r0)
    case (Some x)
    with sh "1.prems" have res: "r = Some x" "s' = s" "bufs' = b0" by auto
    from sh Some have "shift k bufs = (Some x, b0)" by simp
    from mset_shift [OF this] show ?thesis unfolding res by simp
  next
    case None
    note r0 = None
    show ?thesis
    proof (cases s)
      case Nil
      with sh r0 "1.prems" show ?thesis by auto
    next
      case (Cons x xs)
      with sh r0 "1.prems" have rec: "get_next f k (xs, deliver (f x) x bufs) = (r, (s', bufs'))"
        by auto
      from "1.hyps" [OF sh [symmetric] r0 Cons rec] show ?thesis
        using Cons by (simp add: mset_deliver)
    qed
  qed
qed

lemma pull_next_mset:
  assumes "pull_next f p (i, s, bufs) = (r, (i', s', bufs'))"
  shows "mset (all_values (case r of None \<Rightarrow> [] | Some y \<Rightarrow> [y])) + mset (concat (map snd bufs')) + mset s'
       = mset (concat (map snd bufs)) + mset s"
proof (cases p)
  case (Get k)
  with assms obtain r0 where gn: "get_next f k (s, bufs) = (r0, (s', bufs'))"
    and r: "r = map_option (Value k) r0"
    by (auto split: prod.splits)
  from get_next_mset [OF gn] r show ?thesis by (cases r0) simp_all
next
  case Partitions
  with assms obtain r0 where pn: "partitions_next f (i, s, bufs) = (r0, (i', s', bufs'))"
    and r: "r = map_option Entry r0"
    by (auto split: prod.splits)
  from partitions_next_effect [OF pn] obtain new where new: "s = new @ s'"
    "bufs' = deliver_all f new bufs"
    by blast
  then show ?thesis using r by (cases r0) (simp_all add: mset_deliver_all)
qed

lemma all_values_append [simp]: "all_values (xs @ ys) = all_values xs @ all_values ys"
  by (induction xs rule: all_values.induct) simp_all

lemma run_mset:
  assumes "run f ps (i, s, bufs) = (out, (i', s', bufs'))"
  shows "mset (all_values out) + mset (concat (map snd bufs')) + mset s'
       = mset (concat (map snd bufs)) + mset s"
  using assms
proof (induction ps arbitrary: i s bufs out)
  case Nil
  then show ?case by simp
next
  case (Cons p ps)
  obtain r i1 s1 b1 where pn: "pull_next f p (i, s, bufs) = (r, (i1, s1, b1))"
    by (metis prod.exhaust)
  obtain out1 where rn: "run f ps (i1, s1, b1) = (out1, (i', s', bufs'))"
    and out: "out = (case r of None \<Rightarrow> [] | Some y \<Rightarrow> [y]) @ out1"
    using Cons.prems pn by (auto split: prod.splits option.splits)
  have "mset (all_values out) + mset (concat (map snd bufs')) + mset s' =
      mset (all_values (case r of None \<Rightarrow> [] | Some y \<Rightarrow> [y])) +
        (mset (all_values out1) + mset (concat (map snd bufs')) + mset s')"
    unfolding out by (simp add: ac_simps)
  also have "\<dots> = mset (all_values (case r of None \<Rightarrow> [] | Some y \<Rightarrow> [y])) +
        (mset (concat (map snd b1)) + mset s1)"
    by (simp only: Cons.IH [OF rn])
  also have "\<dots> = mset (concat (map snd bufs)) + mset s"
    using pull_next_mset [OF pn] by (simp only: ac_simps)
  finally show ?case .
qed

lemma keys_deliver_all_prefix: "\<exists>ext. keys (deliver_all f xs b) = keys b @ ext"
proof (induction xs arbitrary: b)
  case Nil
  then show ?case by simp
next
  case (Cons x xs)
  from Cons.IH [of "deliver (f x) x b"] obtain ext where
    "keys (deliver_all f xs (deliver (f x) x b)) = keys (deliver (f x) x b) @ ext" by blast
  then show ?case by (auto simp: keys_deliver)
qed

lemma buffer_nth:
  assumes "distinct (keys b)" "i < length b"
  shows "buffer (fst (b ! i)) b = snd (b ! i)"
proof -
  have "(fst (b ! i), snd (b ! i)) \<in> set b" using assms(2) by simp
  then have "map_of b (fst (b ! i)) = Some (snd (b ! i))"
    using assms(1) by (simp add: keys_def)
  then show ?thesis by (simp add: buffer_def)
qed

lemma length_keys [simp]: "length (keys b) = length b"
  by (simp add: keys_def)

lemma nth_keys: "i < length b \<Longrightarrow> keys b ! i = fst (b ! i)"
  by (simp add: keys_def)

lemma drop_buffers_eqI:
  assumes k: "keys b' = keys b" and d: "distinct (keys b)"
    and same: "\<And>j. n \<le> j \<Longrightarrow> j < length b \<Longrightarrow> buffer (fst (b ! j)) b' = buffer (fst (b ! j)) b"
  shows "drop n b' = drop n b"
proof (rule nth_equalityI)
  have len: "length b' = length b" using k by (metis length_keys)
  then show "length (drop n b') = length (drop n b)" by simp
  fix j assume "j < length (drop n b')"
  then have j: "n + j < length b" using len by simp
  have f: "fst (b' ! (n + j)) = fst (b ! (n + j))"
    using k j len by (metis nth_keys)
  have "snd (b' ! (n + j)) = buffer (fst (b' ! (n + j))) b'"
    using buffer_nth [of b' "n + j"] d k j len by simp
  also have "\<dots> = buffer (fst (b ! (n + j))) b" using same [of "n + j"] j f by simp
  also have "\<dots> = snd (b ! (n + j))" using buffer_nth [OF d j] .
  finally have "b' ! (n + j) = b ! (n + j)" using f by (simp add: prod_eq_iff)
  then show "drop n b' ! j = drop n b ! j" using j len by simp
qed

lemma partitions_collect_eq:
  assumes "distinct (keys bufs)"
  shows "fst (partitions_collect f (i, s, bufs)) = drop i (deliver_all f s bufs)"
  using assms
proof (induction f "(i, s, bufs)" arbitrary: i s bufs rule: partitions_collect.induct)
  case (1 f i s bufs)
  obtain r i1 s1 b1 where pn: "partitions_next f (i, s, bufs) = (r, (i1, s1, b1))"
    by (metis prod.exhaust)
  from partitions_next_effect [OF pn] obtain new where new: "s = new @ s1"
    "b1 = deliver_all f new bufs"
    and r: "case r of Some k \<Rightarrow> i1 = Suc i \<and> i < length b1 \<and> k = fst (b1 ! i)
              | None \<Rightarrow> i1 = i \<and> s1 = [] \<and> length b1 \<le> i"
    by blast
  let ?D = "deliver_all f s bufs"
  have D: "?D = deliver_all f s1 b1" using new by (simp add: deliver_all_append)
  have dD: "distinct (keys ?D)" using "1.prems" by (rule distinct_keys_deliver_all)
  show ?case
  proof (cases r)
    case None
    with r have "s1 = []" "length b1 \<le> i" by auto
    with D have "drop i ?D = []" by simp
    moreover have "fst (partitions_collect f (i, s, bufs)) = []"
      using pn None by (simp add: partitions_collect.simps [of f "(i, s, bufs)"])
    ultimately show ?thesis by simp
  next
    case (Some k)
    with r have i1: "i1 = Suc i" and ib: "i < length b1" and k: "k = fst (b1 ! i)" by auto
    obtain vs s2 b2 where gc: "get_collect f k (s1, b1) = (vs, (s2, b2))"
      by (metis prod.exhaust)
    from get_collect_effect [OF gc] have ge: "s2 = []" "keys b2 = keys ?D"
      "vs = buffer k ?D" "buffer k b2 = []"
      "\<forall>k'. k' \<noteq> k \<longrightarrow> buffer k' b2 = buffer k' ?D"
      unfolding D by auto
    have res: "fst (partitions_collect f (i, s, bufs)) =
        (k, vs) # fst (partitions_collect f (Suc i, s2, b2))"
      using pn Some gc i1
      by (simp add: partitions_collect.simps [of f "(i, s, bufs)"] split: prod.splits)
    have d2: "distinct (keys b2)" using ge(2) dD by simp
    have ih: "fst (partitions_collect f (Suc i, s2, b2)) = drop (Suc i) (deliver_all f s2 b2)"
      using "1.hyps" [OF pn [symmetric] Some _ _ gc [symmetric] _ _ d2] i1
      by simp
    obtain ext where ext: "keys ?D = keys b1 @ ext"
      using keys_deliver_all_prefix [of f s1 b1] D by auto
    have iD: "i < length ?D" using ib ext by (metis length_keys length_append trans_less_add1)
    have kD: "fst (?D ! i) = k"
      using ext ib k iD by (metis nth_keys nth_append length_keys)
    have hd: "?D ! i = (k, vs)"
      using buffer_nth [OF dD iD] kD ge(3) by (simp add: prod_eq_iff)
    have "drop (Suc i) b2 = drop (Suc i) ?D"
    proof (rule drop_buffers_eqI [OF ge(2) dD])
      fix j assume j: "Suc i \<le> j" "j < length ?D"
      have "keys ?D ! j \<noteq> keys ?D ! i"
        using dD j iD by (simp add: nth_eq_iff_index_eq)
      then have "fst (?D ! j) \<noteq> k" using kD j iD by (simp add: nth_keys)
      then show "buffer (fst (?D ! j)) b2 = buffer (fst (?D ! j)) ?D" using ge(5) by simp
    qed
    then have "fst (partitions_collect f (i, s, bufs)) = ?D ! i # drop (Suc i) ?D"
      using res ih ge(1) hd by simp
    then show ?thesis using iD by (simp add: Cons_nth_drop_Suc)
  qed
qed

lemma keys_Nil [simp]: "keys [] = []" by (simp add: keys_def)
lemma buffer_Nil [simp]: "buffer k [] = []" by (simp add: buffer_def)
lemma first_seen_Nil [simp]: "first_seen [] = []" by (simp add: first_seen_def)


lemma run_from_start:
  assumes "run f pulls (0, S, []) = (out, (i, s, bufs))"
  shows "\<exists>pulled. S = pulled @ s \<and> keys bufs = first_seen (map f pulled)
           \<and> (\<forall>k. values_of k out @ buffer k bufs = filter (\<lambda>x. f x = k) pulled)"
proof -
  from run_effect [OF assms] obtain new where new: "S = new @ s"
    "keys bufs = keys (deliver_all f new [])"
    "\<forall>k. buffer k (deliver_all f new []) = values_of k out @ buffer k bufs"
    by blast
  have "keys (deliver_all f new []) = first_seen (map f ([] @ new))"
    by (rule keys_deliver_all) simp
  moreover have "buffer k (deliver_all f new []) = filter (\<lambda>x. f x = k) new" for k
    by (simp add: buffer_deliver_all)
  ultimately show ?thesis using new by (intro exI [of _ new]) simp
qed

subsection \<open>The expectations of Main.ts for partition\<close>

text \<open>"should produce a 'partitions' object containing streams of items ...", "should
  allow retrieving one of the partitions before streaming the rest" (first with
  \<^verbatim>\<open>get(0)\<close> drained, then with \<^verbatim>\<open>get(0).take(2)\<close>, which is two pulls), and "should
  allow retrieving partitions after streaming them all".\<close>

lemma test_partition:
  "fst (partitions_collect (\<lambda>n. n mod 2) (0, [0, 1, 2, 3, 4, 5, 6, 7, 8, 9 :: nat], []))
     = [(0, [0, 2, 4, 6, 8]), (1, [1, 3, 5, 7, 9])]"
  "get_collect (\<lambda>n. n mod 3) 0 ([0, 1, 2, 3, 4, 5, 6, 7, 8, 9 :: nat], [])
     = ([0, 3, 6, 9], ([], [(0, []), (1, [1, 4, 7]), (2, [2, 5, 8])]))"
  "fst (partitions_collect (\<lambda>n. n mod 3) (0, [], [(0, []), (1, [1, 4, 7]), (2, [2, 5, 8 :: nat])]))
     = [(0, []), (1, [1, 4, 7]), (2, [2, 5, 8])]"
  "run (\<lambda>n. n mod 3) [Get 0, Get 0] (0, [0, 1, 2, 3, 4, 5, 6, 7, 8, 9 :: nat], [])
     = ([Value 0 0, Value 0 3], (0, [4, 5, 6, 7, 8, 9], [(0, []), (1, [1]), (2, [2])]))"
  "fst (partitions_collect (\<lambda>n. n mod 3) (0, [4, 5, 6, 7, 8, 9 :: nat], [(0, []), (1, [1]), (2, [2])]))
     = [(0, [6, 9]), (1, [1, 4, 7]), (2, [2, 5, 8])]"
  "run (\<lambda>n. n mod 3) [Partitions, Partitions, Partitions, Partitions]
       (0, [0, 1, 2, 3, 4, 5, 6, 7, 8, 9 :: nat], [])
     = ([Entry 0, Entry 1, Entry 2], (3, [], [(0, [0, 3, 6, 9]), (1, [1, 4, 7]), (2, [2, 5, 8])]))"
  "fst (get_collect (\<lambda>n. n mod 3) 0 ([], [(0, [0, 3, 6, 9]), (1, [1, 4, 7]), (2, [2, 5, 8 :: nat])]))
     = [0, 3, 6, 9]"
  by code_simp+

section \<open>Theorems about the Stream engine\<close>



text \<open>
  C2. For every finite parent stream \<open>S\<close>, key function and schedule of pulls on the
  sub-streams and on the stream of partitions, however interleaved: the parent's
  cursor has only moved forward over a prefix \<open>pulled\<close> of \<open>S\<close> (each element is pulled
  at most once); for every key, the values its sub-stream has yielded followed by its
  buffer are exactly the pulled elements of that key, in order (each pulled element
  went to the buffer of its own key, once); there is one buffer per key; the values
  yielded, the buffered elements and the elements not yet pulled together are exactly
  the elements of \<open>S\<close>, as a multiset (none lost, none yielded twice); and once the
  stream of partitions and the sub-streams of its pairs are drained, the number of
  values yielded in total is the length of \<open>S\<close>.
\<close>

theorem partition_conservation:
  assumes "run sorter pulls (0, S, []) = (out, (i, s, bufs))"
  shows "(\<exists>pulled. S = pulled @ s \<and> keys bufs = first_seen (map sorter pulled)
            \<and> (\<forall>k. values_of k out @ buffer k bufs = filter (\<lambda>x. sorter x = k) pulled))
       \<and> distinct (keys bufs)
       \<and> mset (all_values out) + mset (concat (map snd bufs)) + mset s = mset S
       \<and> length (all_values out) \<le> length S
       \<and> mset (all_values out) + mset (concat (map snd (fst (partitions_collect sorter (0, s, bufs)))))
           = mset S
       \<and> length (all_values out) + length (concat (map snd (fst (partitions_collect sorter (0, s, bufs)))))
           = length S"
proof -
  from run_from_start [OF assms] obtain pulled where p: "S = pulled @ s"
    "keys bufs = first_seen (map sorter pulled)"
    "\<forall>k. values_of k out @ buffer k bufs = filter (\<lambda>x. sorter x = k) pulled"
    by blast
  have d: "distinct (keys bufs)" using p(2) by simp
  have m: "mset (all_values out) + mset (concat (map snd bufs)) + mset s = mset S"
    using run_mset [OF assms] by simp
  have "size (mset (all_values out) + mset (concat (map snd bufs)) + mset s) = size (mset S)"
    using m by simp
  then have l: "length (all_values out) \<le> length S" by simp
  have pc: "fst (partitions_collect sorter (0, s, bufs)) = deliver_all sorter s bufs"
    using partitions_collect_eq [OF d, of sorter 0 s] by simp
  have m2: "mset (all_values out) + mset (concat (map snd (fst (partitions_collect sorter (0, s, bufs)))))
      = mset S"
    unfolding pc mset_deliver_all using m by (simp add: ac_simps)
  have "size (mset (all_values out) + mset (concat (map snd (fst (partitions_collect sorter (0, s, bufs))))))
      = size (mset S)"
    using m2 by simp
  then have l2: "length (all_values out) + length (concat (map snd (fst (partitions_collect sorter (0, s, bufs)))))
      = length S"
    by (simp only: size_union size_mset)
  from p d m l m2 l2 show ?thesis by blast
qed

theorem partition_conservation_witness:
  "run (\<lambda>n. n mod 3) [Get 0, Get 2, Partitions, Get 0] (0, [0, 1, 2, 3, 4, 5, 6, 7, 8, 9 :: nat], [])
     = ([Value 0 0, Value 2 2, Entry 0, Value 0 3], (1, [4, 5, 6, 7, 8, 9], [(0, []), (1, [1]), (2, [])]))
   \<and> mset (all_values [Value (0 :: nat) (0 :: nat), Value 2 2, Entry 0, Value 0 3])
       + mset (concat (map snd [(0 :: nat, []), (1, [1 :: nat]), (2, [])])) + mset [4, 5, 6, 7, 8, 9]
       = mset [0, 1, 2, 3, 4, 5, 6, 7, 8, 9]
   \<and> length (all_values [Value (0 :: nat) (0 :: nat), Value 2 2, Entry 0, Value 0 3])
       + length (concat (map snd (fst (partitions_collect (\<lambda>n. n mod 3)
           (0, [4, 5, 6, 7, 8, 9 :: nat], [(0 :: nat, []), (1, [1]), (2, [])])))))
       = length [0, 1, 2, 3, 4, 5, 6, 7, 8, 9 :: nat]"
proof -
  have r: "run (\<lambda>n. n mod 3) [Get 0, Get 2, Partitions, Get 0] (0, [0, 1, 2, 3, 4, 5, 6, 7, 8, 9 :: nat], [])
     = ([Value 0 0, Value 2 2, Entry 0, Value 0 3], (1, [4, 5, 6, 7, 8, 9], [(0, []), (1, [1]), (2, [])]))"
    by code_simp
  from partition_conservation [OF r] show ?thesis
    by (elim conjE) (intro conjI, rule r, assumption+)
qed












text \<open>
  C5. For every stream and integer index, with \<open>j\<close> the index itself, or the length
  plus the index when it is negative: if \<open>j\<close> is in range, at finds the element at
  position \<open>j\<close> and returns it, whatever its value (also \<^verbatim>\<open>undefined\<close>), and the fallback
  is not invoked; if \<open>j\<close> is out of range, at invokes the fallback and returns its result
  as it is, or returns \<^verbatim>\<open>undefined\<close> when no fallback was supplied.
\<close>

theorem at_stream_index:
  assumes "is_integer index"
  shows "fst (at_stream index orElse s) =
           Inr (let n = int (length s); i = \<lfloor>index\<rfloor>; j = (if i < 0 then n + i else i)
                in if 0 \<le> j \<and> j < n then Found (s ! nat j)
                   else (case orElse of None \<Rightarrow> Missing | Some f \<Rightarrow> Fallback (f ())))
         \<and> returned (Found v) = v \<and> returned (Fallback v) = v \<and> returned Missing = JUndefined"
proof (cases "0 \<le> index")
  case True
  then have i: "0 \<le> \<lfloor>index\<rfloor>" by simp
  have "nat \<lfloor>index\<rfloor> < length s \<longleftrightarrow> \<lfloor>index\<rfloor> < int (length s)"
    using i by linarith
  then show ?thesis
    using assms True i by (simp add: at_stream_def skip_then_next_eq or_else_def Let_def)
next
  case False
  then have i: "\<lfloor>index\<rfloor> < 0" by simp
  then show ?thesis
    using assms False by (simp add: at_stream_def or_else_def Let_def)
qed

theorem at_stream_index_witness:
  "fst (at_stream (- 2) (Some (\<lambda>_. num 10)) [JUndefined, JUndefined, JUndefined]) = Inr (Found JUndefined)
   \<and> fst (at_stream 5 (Some (\<lambda>_. num 12)) [num 0, num 1, num 2]) = Inr (Fallback (num 12))
   \<and> fst (at_stream 3 None [num 0, num 1, num 2]) = Inr Missing"
proof -
  have "is_integer (- 2)" "is_integer 5" "is_integer 3"
    by (simp_all add: is_integer_def)
  then show ?thesis
    using at_stream_index [of "- 2" "Some (\<lambda>_. num 10)" "[JUndefined, JUndefined, JUndefined]"]
      at_stream_index [of 5 "Some (\<lambda>_. num 12)" "[num 0, num 1, num 2]"]
      at_stream_index [of 3 None "[num 0, num 1, num 2]"]
    by simp
qed




text \<open>
  C7. For every stream, flatMap (with or without a mapping function) yields, for each
  element in order, the members of its result (the mapper's value, or the element itself
  without a mapper) when the result is an iterable container, and the result itself as
  a single item otherwise; a text result is such a single item, so text is never
  decomposed into characters. In particular \<^verbatim>\<open>of([0,0],[1,2],[2,4]).flatMap()\<close> is
  0, 0, 1, 2, 2, 4 and \<^verbatim>\<open>of("foo","bar").flatMap()\<close> is "foo", "bar".
\<close>

theorem flatMap_members:
  "fst (flatMap_collect mapper ([], s)) =
     concat (map (\<lambda>x. case mapped mapper x of JArray members \<Rightarrow> members | v \<Rightarrow> [v]) s)
   \<and> ((\<forall>x \<in> set s. \<exists>text. mapped mapper x = JString text) \<longrightarrow>
        fst (flatMap_collect mapper ([], s)) = map (mapped mapper) s)
   \<and> mapped None x = x
   \<and> mapped (Some f) x = f x
   \<and> fst (flatMap_collect None ([], [JArray [num 0, num 0], JArray [num 1, num 2], JArray [num 2, num 4]]))
       = [num 0, num 0, num 1, num 2, num 2, num 4]
   \<and> fst (flatMap_collect None ([], [JString ''foo'', JString ''bar'']))
       = [JString ''foo'', JString ''bar'']"
proof -
  have g: "fst (flatMap_collect mapper ([], s)) =
     concat (map (\<lambda>x. case mapped mapper x of JArray members \<Rightarrow> members | v \<Rightarrow> [v]) s)"
    by (simp add: flatMap_collect_eq)
  have t: "fst (flatMap_collect mapper ([], s)) = map (mapped mapper) s"
    if "\<forall>x \<in> set s. \<exists>text. mapped mapper x = JString text"
  proof -
    have "concat (map (\<lambda>x. case mapped mapper x of JArray members \<Rightarrow> members | v \<Rightarrow> [v]) s)
        = map (mapped mapper) s"
      using that by (induction s) auto
    then show ?thesis by (simp only: g)
  qed
  have m: "mapped None x = x" "mapped (Some f) x = f x"
    by (simp_all add: mapped_def)
  from g t m test_flatMap(1,3) show ?thesis by blast
qed

theorem flatMap_members_witness:
  "fst (flatMap_collect (Some (\<lambda>str. str)) ([], [JString ''foo'', JString ''bar'']))
     = [JString ''foo'', JString ''bar'']
   \<and> fst (flatMap_collect None ([], [num 0, JArray [num 1, num 2], JArray [], JString ''a'']))
     = [num 0, num 1, num 2, JString ''a'']"
  using flatMap_members [of "Some (\<lambda>str. str)" "[JString ''foo'', JString ''bar'']"]
    flatMap_members [of None "[num 0, JArray [num 1, num 2], JArray [], JString ''a'']"]
  by (simp add: mapped_def)

end
